theory Spec2Isabelle
  imports Complex_Main
begin

section \<open>Octree frustum culling (frustrum\_culling.cpp)\<close>

text \<open>
  A shallow embedding of the single source file. Conventions of the embedding:
  \<^item> \<^verbatim>\<open>glm::vec3\<close> and \<^verbatim>\<open>glm::vec4\<close> are library types; their components are
    single-precision floats in the source and real numbers here, so every
    statement about coordinates is about exact arithmetic. The selectors carry
    the arity as a suffix (\<open>x3\<close>, \<open>x4\<close>, ...).
  \<^item> The members \<^verbatim>\<open>nodes_\<close> and \<^verbatim>\<open>visibleNodes_\<close> lose their trailing underscore,
    the fields \<^verbatim>\<open>min\<close> and \<^verbatim>\<open>max\<close> of \<^verbatim>\<open>BoundingBox\<close> get the suffix \<open>_bb\<close>.
  \<^item> \<^verbatim>\<open>std::vector::operator[]\<close> outside the vector is undefined behaviour in
    the source; here it is the failure \<open>OutOfBounds\<close>.
  \<^item> The recursive member functions get a first argument that bounds the depth
    of the call stack; the value \<open>None\<close> stands for a call that has not returned
    within that bound.
  \<^item> \<^verbatim>\<open>int\<close> values are unbounded integers: the only arithmetic on them is
    \<^verbatim>\<open>depth + 1\<close> and \<^verbatim>\<open>nodeIndex + childIndex\<close>.
  \<^item> The file is read with its slips of the pen repaired: \<^verbatim>\<open>2.0 f\<close> is \<^verbatim>\<open>2.0f\<close>,
    \<^verbatim>\<open>std::vectorglm::vec4\<close> is a vector of \<^verbatim>\<open>glm::vec4\<close>, and \<^verbatim>\<open>FrustumCullRecursive\<close>
    is a member function although the class does not declare it.
\<close>

subsection \<open>Data\<close>

datatype vec3 = vec3 (x3: real) (y3: real) (z3: real)

datatype vec4 = vec4 (x4: real) (y4: real) (z4: real) (w4: real)

record BoundingBox =
  min_bb :: vec3
  max_bb :: vec3

text \<open>
  \<^verbatim>\<open>FrustumCullRecursive\<close> reads \<^verbatim>\<open>child.nodeIndex\<close>, a member that the declaration
  of \<^verbatim>\<open>struct OctreeNode\<close> lacks and that no statement of the file assigns. It is
  the fourth field here.
\<close>

datatype OctreeNode =
  OctreeNode (boundingBox: BoundingBox) (children: "OctreeNode list")
    (objects: "int list") (nodeIndex: int)

record Octree =
  nodes :: "OctreeNode list"
  visibleNodes :: "int list"

datatype error = OutOfBounds

subsection \<open>Vector arithmetic of glm\<close>

definition glm_min :: "vec3 \<Rightarrow> vec3 \<Rightarrow> vec3" where
  "glm_min a b = vec3 (min (x3 a) (x3 b)) (min (y3 a) (y3 b)) (min (z3 a) (z3 b))"

definition glm_max :: "vec3 \<Rightarrow> vec3 \<Rightarrow> vec3" where
  "glm_max a b = vec3 (max (x3 a) (x3 b)) (max (y3 a) (y3 b)) (max (z3 a) (z3 b))"

definition vadd :: "vec3 \<Rightarrow> vec3 \<Rightarrow> vec3" where
  "vadd a b = vec3 (x3 a + x3 b) (y3 a + y3 b) (z3 a + z3 b)"

definition vsub :: "vec3 \<Rightarrow> vec3 \<Rightarrow> vec3" where
  "vsub a b = vec3 (x3 a - x3 b) (y3 a - y3 b) (z3 a - z3 b)"

definition vhalf :: "vec3 \<Rightarrow> vec3" where
  "vhalf a = vec3 (x3 a / 2) (y3 a / 2) (z3 a / 2)"

subsection \<open>Construction\<close>

text \<open>Value initialisation, as \<^verbatim>\<open>push_back({})\<close> and \<^verbatim>\<open>resize(8)\<close> perform it.\<close>

definition empty_node :: OctreeNode where
  "empty_node = OctreeNode \<lparr>min_bb = vec3 0 0 0, max_bb = vec3 0 0 0\<rparr> [] [] 0"

definition resize :: "nat \<Rightarrow> OctreeNode list \<Rightarrow> OctreeNode list" where
  "resize n xs = take n xs @ replicate (n - length xs) empty_node"

definition in_range :: "'a list \<Rightarrow> int \<Rightarrow> bool" where
  "in_range xs i = (0 \<le> i \<and> i < int (length xs))"

fun set_boundingBox :: "BoundingBox \<Rightarrow> OctreeNode \<Rightarrow> OctreeNode" where
  "set_boundingBox b (OctreeNode _ cs os i) = OctreeNode b cs os i"

fun set_children :: "OctreeNode list \<Rightarrow> OctreeNode \<Rightarrow> OctreeNode" where
  "set_children cs (OctreeNode b _ os i) = OctreeNode b cs os i"

text \<open>
  The statements \<^verbatim>\<open>node.children.resize(8)\<close> and
  \<^verbatim>\<open>node.children[childIndex].boundingBox = childBoundingBox\<close>, as functions on the
  node.
\<close>

definition resize_children :: "nat \<Rightarrow> OctreeNode \<Rightarrow> OctreeNode" where
  "resize_children n node = set_children (resize n (children node)) node"

definition store_childBoundingBox :: "int \<Rightarrow> BoundingBox \<Rightarrow> OctreeNode \<Rightarrow> OctreeNode" where
  "store_childBoundingBox childIndex childBox node =
     set_children
       ((children node)[nat childIndex :=
          set_boundingBox childBox (children node ! nat childIndex)])
       node"

definition update_node :: "int \<Rightarrow> (OctreeNode \<Rightarrow> OctreeNode) \<Rightarrow> Octree \<Rightarrow> Octree" where
  "update_node i f s = s\<lparr>nodes := (nodes s)[nat i := f (nodes s ! nat i)]\<rparr>"

text \<open>The three nested loops of \<^verbatim>\<open>BuildTree\<close>: z outermost, x innermost.\<close>

definition octants :: "(int \<times> int \<times> int) list" where
  "octants = [(x, y, z). z \<leftarrow> [0, 1], y \<leftarrow> [0, 1], x \<leftarrow> [0, 1]]"

definition box_center :: "BoundingBox \<Rightarrow> vec3" where
  "box_center b = vhalf (vadd (min_bb b) (max_bb b))"

definition box_extents :: "BoundingBox \<Rightarrow> vec3" where
  "box_extents b = vhalf (vsub (max_bb b) (min_bb b))"

definition octant_offset :: "vec3 \<Rightarrow> int \<Rightarrow> int \<Rightarrow> int \<Rightarrow> vec3" where
  "octant_offset extents x y z =
     vec3 (of_int x * x3 extents) (of_int y * y3 extents) (of_int z * z3 extents)"

definition childBoundingBox :: "vec3 \<Rightarrow> vec3 \<Rightarrow> int \<Rightarrow> int \<Rightarrow> int \<Rightarrow> BoundingBox" where
  "childBoundingBox center extents x y z =
     \<lparr>min_bb = vadd (vsub center extents) (octant_offset extents x y z),
      max_bb = vadd (vadd center extents) (octant_offset extents x y z)\<rparr>"

text \<open>
  \<^verbatim>\<open>BuildTree\<close> compares \<^verbatim>\<open>depth\<close> with \<^verbatim>\<open>maxDepth\<close>, which is a parameter of the
  constructor only; it is passed along here. The reference \<^verbatim>\<open>node\<close> stays bound
  to \<^verbatim>\<open>nodes_[nodeIndex]\<close> across the recursive calls, so each iteration of the
  loop writes into the element as the previous call left it. Line 94 of the
  source, a stray copy of the offset expression, has no effect. The parameters
  \<^verbatim>\<open>nodeIndex\<close> and \<^verbatim>\<open>boundingBox\<close> are \<open>nodeIdx\<close> and \<open>bbox\<close>, since the selectors of
  \<open>OctreeNode\<close> have taken their names.
\<close>

fun BuildTree ::
    "nat \<Rightarrow> int \<Rightarrow> int \<Rightarrow> int \<Rightarrow> BoundingBox \<Rightarrow> Octree \<Rightarrow> (error + Octree) option"
  and BuildTree_loop ::
    "nat \<Rightarrow> int \<Rightarrow> int \<Rightarrow> int \<Rightarrow> vec3 \<Rightarrow> vec3 \<Rightarrow> (int \<times> int \<times> int) list \<Rightarrow> Octree
       \<Rightarrow> (error + Octree) option"
where
  "BuildTree 0 maxDepth nodeIdx depth bbox s = None"
| "BuildTree (Suc fuel) maxDepth nodeIdx depth bbox s =
     (if in_range (nodes s) nodeIdx then
        (let s1 = update_node nodeIdx (set_boundingBox bbox) s in
         if depth = maxDepth then Some (Inr s1)
         else
           (let center = box_center bbox;
                extents = box_extents bbox;
                s2 = update_node nodeIdx (resize_children 8) s1
            in BuildTree_loop fuel maxDepth nodeIdx depth center extents octants s2))
      else Some (Inl OutOfBounds))"
| "BuildTree_loop fuel maxDepth nodeIdx depth center extents [] s = Some (Inr s)"
| "BuildTree_loop fuel maxDepth nodeIdx depth center extents ((x, y, z) # rest) s =
     (let childIndex = x + y * 2 + z * 4;
          childBox = childBoundingBox center extents x y z
      in if in_range (children (nodes s ! nat nodeIdx)) childIndex then
           (let s1 = update_node nodeIdx (store_childBoundingBox childIndex childBox) s
            in case BuildTree fuel maxDepth (nodeIdx + childIndex) (depth + 1)
                      childBox s1 of
                 None \<Rightarrow> None
               | Some (Inl e) \<Rightarrow> Some (Inl e)
               | Some (Inr s2) \<Rightarrow>
                   BuildTree_loop fuel maxDepth nodeIdx depth center extents rest s2)
         else Some (Inl OutOfBounds))"

text \<open>The body of the loop over the vertices, and the loop.\<close>

definition sceneBoundingBox_step :: "vec3 \<Rightarrow> BoundingBox \<Rightarrow> BoundingBox" where
  "sceneBoundingBox_step vertex b =
     \<lparr>min_bb = glm_min (min_bb b) vertex, max_bb = glm_max (max_bb b) vertex\<rparr>"

definition sceneBoundingBox :: "vec3 \<Rightarrow> vec3 list \<Rightarrow> BoundingBox" where
  "sceneBoundingBox v0 vertices = fold sceneBoundingBox_step vertices \<lparr>min_bb = v0, max_bb = v0\<rparr>"

text \<open>The constructor. \<^verbatim>\<open>vertices[0]\<close> is read before anything else.\<close>

definition Octree_ctor :: "nat \<Rightarrow> vec3 list \<Rightarrow> int \<Rightarrow> (error + Octree) option" where
  "Octree_ctor fuel vertices maxDepth =
     (case vertices of
        [] \<Rightarrow> Some (Inl OutOfBounds)
      | v0 # _ \<Rightarrow>
          BuildTree fuel maxDepth 0 0 (sceneBoundingBox v0 vertices)
            \<lparr>nodes = [empty_node], visibleNodes = []\<rparr>)"

subsection \<open>Culling\<close>

definition plane_test :: "real \<Rightarrow> real \<Rightarrow> real \<Rightarrow> int" where
  "plane_test n c w = (if n * c + w > 0 then 1 else 0)"

fun IntersectsFrustum :: "BoundingBox \<Rightarrow> vec4 list \<Rightarrow> bool" where
  "IntersectsFrustum bbox [] = True"
| "IntersectsFrustum bbox (plane # rest) =
     (let out = 0
          + plane_test (x4 plane) (x3 (min_bb bbox)) (w4 plane)
          + plane_test (x4 plane) (x3 (max_bb bbox)) (w4 plane)
          + plane_test (y4 plane) (y3 (min_bb bbox)) (w4 plane)
          + plane_test (y4 plane) (y3 (max_bb bbox)) (w4 plane)
          + plane_test (z4 plane) (z3 (min_bb bbox)) (w4 plane)
          + plane_test (z4 plane) (z3 (max_bb bbox)) (w4 plane)
      in if out = 6 then False else IntersectsFrustum bbox rest)"

fun FrustumCullRecursive ::
    "nat \<Rightarrow> int \<Rightarrow> vec4 list \<Rightarrow> Octree \<Rightarrow> (error + Octree) option"
  and FrustumCullRecursive_loop ::
    "nat \<Rightarrow> OctreeNode list \<Rightarrow> vec4 list \<Rightarrow> Octree \<Rightarrow> (error + Octree) option"
where
  "FrustumCullRecursive 0 nodeIdx frustumPlanes s = None"
| "FrustumCullRecursive (Suc fuel) nodeIdx frustumPlanes s =
     (if in_range (nodes s) nodeIdx then
        (let node = nodes s ! nat nodeIdx in
         if IntersectsFrustum (boundingBox node) frustumPlanes then
           FrustumCullRecursive_loop fuel (children node) frustumPlanes
             (s\<lparr>visibleNodes := visibleNodes s @ [nodeIdx]\<rparr>)
         else Some (Inr s))
      else Some (Inl OutOfBounds))"
| "FrustumCullRecursive_loop fuel [] frustumPlanes s = Some (Inr s)"
| "FrustumCullRecursive_loop fuel (child # rest) frustumPlanes s =
     (case FrustumCullRecursive fuel (nodeIndex child) frustumPlanes s of
        None \<Rightarrow> None
      | Some (Inl e) \<Rightarrow> Some (Inl e)
      | Some (Inr s1) \<Rightarrow> FrustumCullRecursive_loop fuel rest frustumPlanes s1)"

definition FrustumCull :: "nat \<Rightarrow> vec4 list \<Rightarrow> Octree \<Rightarrow> (error + Octree) option" where
  "FrustumCull fuel frustumPlanes s =
     FrustumCullRecursive fuel 0 frustumPlanes (s\<lparr>visibleNodes := []\<rparr>)"

subsection \<open>Predicates of the specification\<close>

text \<open>A point lies in a box when it does so componentwise, bounds included.\<close>

definition box_contains :: "BoundingBox \<Rightarrow> vec3 \<Rightarrow> bool" where
  "box_contains b p =
     (x3 (min_bb b) \<le> x3 p \<and> x3 p \<le> x3 (max_bb b) \<and>
      y3 (min_bb b) \<le> y3 p \<and> y3 p \<le> y3 (max_bb b) \<and>
      z3 (min_bb b) \<le> z3 p \<and> z3 p \<le> z3 (max_bb b))"

text \<open>
  The pre-order of the specification, over the node vector: a node that passes
  the test comes first, followed by the traversals of its children in the order
  of its child vector; a node that fails the test contributes nothing. The
  first argument bounds the depth; \<open>None\<close> stands for a traversal that is deeper or
  that leaves the vector. With no planes every node passes, which lists the
  whole tree below a node.
\<close>

fun preorder :: "nat \<Rightarrow> OctreeNode list \<Rightarrow> vec4 list \<Rightarrow> int \<Rightarrow> int list option"
  and preorder_list :: "nat \<Rightarrow> OctreeNode list \<Rightarrow> vec4 list \<Rightarrow> int list \<Rightarrow> int list option"
where
  "preorder 0 ns planes i = None"
| "preorder (Suc k) ns planes i =
     (if in_range ns i then
        (if IntersectsFrustum (boundingBox (ns ! nat i)) planes
         then map_option ((#) i)
                (preorder_list k ns planes (map nodeIndex (children (ns ! nat i))))
         else Some [])
      else None)"
| "preorder_list k ns planes [] = Some []"
| "preorder_list k ns planes (c # cs) =
     (case preorder k ns planes c of
        None \<Rightarrow> None
      | Some xs \<Rightarrow> map_option ((@) xs) (preorder_list k ns planes cs))"

text \<open>
  The eight corners of a box and the signed distance of a point from a plane
  (positive is inside). A box is fully outside a frustum when all its corners
  are strictly outside one of the planes.
\<close>

definition corners :: "BoundingBox \<Rightarrow> vec3 list" where
  "corners b =
     [vec3 x y z. z \<leftarrow> [z3 (min_bb b), z3 (max_bb b)], y \<leftarrow> [y3 (min_bb b), y3 (max_bb b)],
        x \<leftarrow> [x3 (min_bb b), x3 (max_bb b)]]"

definition signed_distance :: "vec4 \<Rightarrow> vec3 \<Rightarrow> real" where
  "signed_distance plane p = x4 plane * x3 p + y4 plane * y3 p + z4 plane * z3 p + w4 plane"

definition fully_outside :: "BoundingBox \<Rightarrow> vec4 list \<Rightarrow> bool" where
  "fully_outside b planes =
     list_ex (\<lambda>plane. list_all (\<lambda>c. signed_distance plane c < 0) (corners b)) planes"

definition fully_inside :: "BoundingBox \<Rightarrow> vec4 list \<Rightarrow> bool" where
  "fully_inside b planes =
     list_all (\<lambda>plane. list_all (\<lambda>c. signed_distance plane c > 0) (corners b)) planes"

text \<open>The octant \<open>(x, y, z)\<close> of a box: the half-size box between a corner and the center.\<close>

definition octant :: "BoundingBox \<Rightarrow> int \<Rightarrow> int \<Rightarrow> int \<Rightarrow> BoundingBox" where
  "octant b x y z =
     \<lparr>min_bb = vadd (min_bb b) (octant_offset (box_extents b) x y z),
      max_bb = vadd (box_center b) (octant_offset (box_extents b) x y z)\<rparr>"

subsection \<open>Inputs used for evaluation\<close>

text \<open>The eight corners of the unit cube, from (0,0,0) to (1,1,1).\<close>

definition unit_cube :: "vec3 list" where
  "unit_cube = [vec3 x y z. z \<leftarrow> [0, 1], y \<leftarrow> [0, 1], x \<leftarrow> [0, 1]]"

definition unit_box :: BoundingBox where
  "unit_box = \<lparr>min_bb = vec3 0 0 0, max_bb = vec3 1 1 1\<rparr>"

text \<open>The index that the constructor returns for the unit cube and \<open>maxDepth = 0\<close>.\<close>

definition unit_index :: Octree where
  "unit_index = \<lparr>nodes = [OctreeNode unit_box [] [] 0], visibleNodes = []\<rparr>"

text \<open>
  A frustum whose planes are the faces of the cube from (-1,-1,-1) to (2,2,2),
  facing inward: the unit cube lies strictly inside it.
\<close>

definition wide_frustum :: "vec4 list" where
  "wide_frustum =
     [vec4 1 0 0 1, vec4 (-1) 0 0 2, vec4 0 1 0 1, vec4 0 (-1) 0 2, vec4 0 0 1 1, vec4 0 0 (-1) 2]"

text \<open>
  A frustum whose planes are the faces of the cube from (1,1,1) to (2,2,2), facing
  inward, and a box far outside it, with two points that span the box and the
  index that the constructor returns for them and \<open>maxDepth = 0\<close>.
\<close>

definition narrow_frustum :: "vec4 list" where
  "narrow_frustum =
     [vec4 1 0 0 (-1), vec4 (-1) 0 0 2, vec4 0 1 0 (-1), vec4 0 (-1) 0 2,
      vec4 0 0 1 (-1), vec4 0 0 (-1) 2]"

definition far_box :: BoundingBox where
  "far_box = \<lparr>min_bb = vec3 5 5 5, max_bb = vec3 6 6 6\<rparr>"

definition far_points :: "vec3 list" where
  "far_points = [vec3 5 5 5, vec3 6 6 6]"

definition far_index :: Octree where
  "far_index = \<lparr>nodes = [OctreeNode far_box [] [] 0], visibleNodes = []\<rparr>"

text \<open>
  A node vector with child links, as \<^verbatim>\<open>FrustumCullRecursive\<close> follows them: the root
  0 has the children 1 and 2, node 1 has the child 3. The box of node 1 is the
  lower octant of the unit cube, the other boxes are the unit cube.
\<close>

definition half_box :: BoundingBox where
  "half_box = \<lparr>min_bb = vec3 0 0 0, max_bb = vec3 (1/2) (1/2) (1/2)\<rparr>"

definition linked_index :: Octree where
  "linked_index =
     \<lparr>nodes =
        [OctreeNode unit_box [OctreeNode half_box [] [] 1, OctreeNode unit_box [] [] 2] [] 0,
         OctreeNode half_box [OctreeNode unit_box [] [] 3] [] 1,
         OctreeNode unit_box [] [] 2,
         OctreeNode unit_box [] [] 3],
      visibleNodes = []\<rparr>"


definition room_children :: "OctreeNode list" where
  "room_children =
     map (\<lambda>(x, y, z).
            OctreeNode (childBoundingBox (box_center unit_box) (box_extents unit_box) x y z) [] [] 0)
       octants"

definition room_built :: Octree where
  "room_built = \<lparr>nodes = OctreeNode unit_box room_children [] 0 # tl room_children, visibleNodes = []\<rparr>"

text \<open>Six planes through the origin, and six planes of which the first cuts at x = 3/4.\<close>

definition origin_planes :: "vec4 list" where
  "origin_planes =
     [vec4 1 0 0 0, vec4 (-1) 0 0 0, vec4 0 1 0 0, vec4 0 (-1) 0 0, vec4 0 0 1 0, vec4 0 0 (-1) 0]"

definition slab_planes :: "vec4 list" where
  "slab_planes =
     [vec4 (-1) 0 0 (3/4), vec4 1 0 0 0, vec4 0 1 0 0, vec4 0 (-1) 0 0, vec4 0 0 1 0,
      vec4 0 0 (-1) 0]"

section \<open>Basic facts about the state updates\<close>

lemma boundingBox_set_boundingBox [simp]: "boundingBox (set_boundingBox b n) = b"
  by (cases n) simp

lemma children_set_boundingBox [simp]: "children (set_boundingBox b n) = children n"
  by (cases n) simp

lemma nodeIndex_set_boundingBox [simp]: "nodeIndex (set_boundingBox b n) = nodeIndex n"
  by (cases n) simp

lemma boundingBox_set_children [simp]: "boundingBox (set_children cs n) = boundingBox n"
  by (cases n) simp

lemma children_set_children [simp]: "children (set_children cs n) = cs"
  by (cases n) simp

lemma length_resize [simp]: "length (resize n xs) = n"
  by (simp add: resize_def)

lemma resize_eq_Nil [simp]: "resize n xs = [] \<longleftrightarrow> n = 0"
  using length_resize [of n xs] by (metis length_0_conv)

lemma children_resize_children [simp]:
  "children (resize_children n node) = resize n (children node)"
  by (simp add: resize_children_def)

lemma boundingBox_resize_children [simp]:
  "boundingBox (resize_children n node) = boundingBox node"
  by (simp add: resize_children_def)

lemma children_store_childBoundingBox [simp]:
  "children (store_childBoundingBox i cb node) =
     (children node)[nat i := set_boundingBox cb (children node ! nat i)]"
  by (simp add: store_childBoundingBox_def)

lemma boundingBox_store_childBoundingBox [simp]:
  "boundingBox (store_childBoundingBox i cb node) = boundingBox node"
  by (simp add: store_childBoundingBox_def)

lemma nodes_update_node [simp]:
  "nodes (update_node i f s) = (nodes s)[nat i := f (nodes s ! nat i)]"
  by (simp add: update_node_def)

lemma visibleNodes_update_node [simp]: "visibleNodes (update_node i f s) = visibleNodes s"
  by (simp add: update_node_def)

lemma octants_unfold:
  "octants = [(0,0,0), (1,0,0), (0,1,0), (1,1,0), (0,0,1), (1,0,1), (0,1,1), (1,1,1)]"
  by (simp add: octants_def)

lemma sceneBoundingBox_unit_cube: "sceneBoundingBox (vec3 0 0 0) unit_cube = unit_box"
  by (simp add: unit_cube_def unit_box_def sceneBoundingBox_def sceneBoundingBox_step_def
      glm_min_def glm_max_def)

lemma in_range_nat: "in_range xs i \<Longrightarrow> nat i < length xs"
  by (auto simp: in_range_def nat_less_iff)

lemma BuildTree_first_child:
  "in_range (nodes s) n \<Longrightarrow> depth \<noteq> maxDepth \<Longrightarrow>
   BuildTree (Suc fuel) maxDepth n depth b s =
    (case BuildTree fuel maxDepth n (depth + 1)
            (childBoundingBox (box_center b) (box_extents b) 0 0 0)
            (update_node n
               (store_childBoundingBox 0 (childBoundingBox (box_center b) (box_extents b) 0 0 0))
              (update_node n (resize_children 8) (update_node n (set_boundingBox b) s))) of
       None \<Rightarrow> None
     | Some (Inl e) \<Rightarrow> Some (Inl e)
     | Some (Inr s4) \<Rightarrow> BuildTree_loop fuel maxDepth n depth (box_center b) (box_extents b)
         [(1,0,0), (0,1,0), (1,1,0), (0,0,1), (1,0,1), (0,1,1), (1,1,1)] s4)"
proof -
  assume "in_range (nodes s) n" and d: "depth \<noteq> maxDepth"
  then have "nat n < length (nodes s)" by (simp add: in_range_nat)
  with \<open>in_range (nodes s) n\<close> d show ?thesis
    by (simp add: in_range_def octants_unfold Let_def)
qed

lemma BuildTree_leaf:
  "in_range (nodes s) n \<Longrightarrow>
   BuildTree (Suc fuel) maxDepth n maxDepth b s = Some (Inr (update_node n (set_boundingBox b) s))"
  by simp

section \<open>Construction runs past the end of the node vector\<close>

text \<open>
  The constructor pushes one node and calls \<^verbatim>\<open>BuildTree(0, 0, box)\<close>. Below the
  maximal depth, the loop of \<^verbatim>\<open>BuildTree\<close> first recurses on index
  \<open>nodeIndex + 0\<close>, which is the node itself, and then on \<open>nodeIndex + 1\<close>. With
  a single node in the vector the second call indexes past its end.
\<close>

lemma BuildTree_loop_second_child:
  "length (nodes s) = 1 \<Longrightarrow> length (children (nodes s ! 0)) = 8 \<Longrightarrow>
   BuildTree_loop (Suc g) maxDepth 0 depth c e ((1, 0, 0) # rest) s = Some (Inl OutOfBounds)"
  by (simp add: in_range_def)

lemma BuildTree_single_overrun:
  "length (nodes s) = 1 \<Longrightarrow> depth < maxDepth \<Longrightarrow> nat (maxDepth - depth) < fuel \<Longrightarrow>
   BuildTree fuel maxDepth 0 depth b s = Some (Inl OutOfBounds)"
proof (induction fuel arbitrary: depth b s)
  case 0
  then show ?case by simp
next
  case (Suc fuel)
  from Suc.prems obtain g where g: "fuel = Suc g"
    by (cases fuel) auto
  let ?cb = "childBoundingBox (box_center b) (box_extents b) 0 0 0"
  let ?s3 = "update_node 0 (store_childBoundingBox 0 ?cb)
              (update_node 0 (resize_children 8) (update_node 0 (set_boundingBox b) s))"
  have range: "in_range (nodes s) 0" using Suc.prems(1) by (simp add: in_range_def)
  from Suc.prems(2) have below: "depth \<noteq> maxDepth" by simp
  have len3: "length (nodes ?s3) = 1" using Suc.prems(1) by simp
  note unfold = BuildTree_first_child [OF range below, of fuel b]
  show ?case
  proof (cases "depth + 1 = maxDepth")
    case True
    have range3: "in_range (nodes ?s3) 0" using len3 by (simp add: in_range_def)
    let ?s4 = "update_node 0 (set_boundingBox ?cb) ?s3"
    have ret: "BuildTree fuel maxDepth 0 (depth + 1) ?cb ?s3 = Some (Inr ?s4)"
      unfolding g True BuildTree_leaf [OF range3] ..
    have "length (nodes ?s4) = 1" "length (children (nodes ?s4 ! 0)) = 8"
      using Suc.prems(1) by simp_all
    then have "BuildTree_loop fuel maxDepth 0 depth (box_center b) (box_extents b)
       [(1,0,0), (0,1,0), (1,1,0), (0,0,1), (1,0,1), (0,1,1), (1,1,1)] ?s4 = Some (Inl OutOfBounds)"
      unfolding g by (rule BuildTree_loop_second_child)
    then show ?thesis unfolding unfold ret by simp
  next
    case False
    with Suc.prems have "depth + 1 < maxDepth" "nat (maxDepth - (depth + 1)) < fuel" by auto
    from Suc.IH [OF len3 this] show ?thesis unfolding unfold by simp
  qed
qed

lemma Octree_ctor_overrun:
  "vertices \<noteq> [] \<Longrightarrow> 1 \<le> maxDepth \<Longrightarrow> nat maxDepth < fuel \<Longrightarrow>
   Octree_ctor fuel vertices maxDepth = Some (Inl OutOfBounds)"
  by (cases vertices) (simp_all add: Octree_ctor_def BuildTree_single_overrun)

text \<open>With a single node in the vector, only a call at the maximal depth returns.\<close>

lemma BuildTree_single_no_tree:
  "length (nodes s) = 1 \<Longrightarrow> depth \<noteq> maxDepth \<Longrightarrow> BuildTree fuel maxDepth 0 depth b s \<noteq> Some (Inr s')"
proof (induction fuel arbitrary: depth b s s')
  case 0
  then show ?case by simp
next
  case (Suc fuel)
  let ?cb = "childBoundingBox (box_center b) (box_extents b) 0 0 0"
  let ?s3 = "update_node 0 (store_childBoundingBox 0 ?cb)
              (update_node 0 (resize_children 8) (update_node 0 (set_boundingBox b) s))"
  have range: "in_range (nodes s) 0" using Suc.prems(1) by (simp add: in_range_def)
  have len3: "length (nodes ?s3) = 1" using Suc.prems(1) by simp
  note unfold = BuildTree_first_child [OF range Suc.prems(2), of fuel b]
  show ?case
  proof (cases "BuildTree fuel maxDepth 0 (depth + 1) ?cb ?s3")
    case None
    then show ?thesis unfolding unfold by simp
  next
    case (Some r)
    show ?thesis
    proof (cases r)
      case (Inl e)
      with Some show ?thesis unfolding unfold by simp
    next
      case (Inr s4)
      with Some have ret: "BuildTree fuel maxDepth 0 (depth + 1) ?cb ?s3 = Some (Inr s4)" by simp
      with Suc.IH [OF len3] have leaf: "depth + 1 = maxDepth" by blast
      from ret obtain g where g: "fuel = Suc g" by (cases fuel) auto
      have range3: "in_range (nodes ?s3) 0" using len3 by (simp add: in_range_def)
      from ret have "s4 = update_node 0 (set_boundingBox ?cb) ?s3"
        unfolding g leaf [symmetric] BuildTree_leaf [OF range3] by simp
      then have "length (nodes s4) = 1" "length (children (nodes s4 ! 0)) = 8"
        using Suc.prems(1) by simp_all
      then have "BuildTree_loop fuel maxDepth 0 depth (box_center b) (box_extents b)
         [(1,0,0), (0,1,0), (1,1,0), (0,0,1), (1,0,1), (0,1,1), (1,1,1)] s4 = Some (Inl OutOfBounds)"
        unfolding g by (rule BuildTree_loop_second_child)
      moreover have "BuildTree (Suc fuel) maxDepth 0 depth b s =
         BuildTree_loop fuel maxDepth 0 depth (box_center b) (box_extents b)
         [(1,0,0), (0,1,0), (1,1,0), (0,0,1), (1,0,1), (0,1,1), (1,1,1)] s4"
        unfolding unfold ret by simp
      ultimately show ?thesis by simp
    qed
  qed
qed

lemma Octree_ctor_leaf:
  "Octree_ctor (Suc fuel) (v0 # vs) 0 =
     Some (Inr \<lparr>nodes = [OctreeNode (sceneBoundingBox v0 (v0 # vs)) [] [] 0], visibleNodes = []\<rparr>)"
  by (simp add: Octree_ctor_def in_range_def update_node_def empty_node_def)

lemma Octree_ctor_returns:
  assumes "Octree_ctor fuel vertices maxDepth = Some (Inr s)"
  shows "maxDepth = 0 \<and> vertices \<noteq> [] \<and>
     s = \<lparr>nodes = [OctreeNode (sceneBoundingBox (hd vertices) vertices) [] [] 0], visibleNodes = []\<rparr>"
proof (cases vertices)
  case Nil
  with assms show ?thesis by (simp add: Octree_ctor_def)
next
  case (Cons v0 vs)
  let ?s0 = "\<lparr>nodes = [empty_node], visibleNodes = []\<rparr>"
  from assms Cons have ret: "BuildTree fuel maxDepth 0 0 (sceneBoundingBox v0 vertices) ?s0 = Some (Inr s)"
    by (simp add: Octree_ctor_def)
  have "length (nodes ?s0) = 1" by simp
  from BuildTree_single_no_tree [OF this] ret have md: "maxDepth = 0" by metis
  from ret obtain g where "fuel = Suc g" by (cases fuel) auto
  with assms Cons md show ?thesis by (simp add: Octree_ctor_leaf)
qed

text \<open>
  Claim C5 says that \<open>maxDepth = 0\<close> gives a tree of one node without children, and
  that \<open>maxDepth = d > 0\<close> gives a tree with \<open>8 ^ d\<close> leaves and \<open>(8 ^ (d + 1) - 1) / 7\<close>
  nodes. The first half is lemma \<open>Octree_ctor_leaf\<close>. For the second half: on the
  corners of the unit cube with \<open>maxDepth = 1\<close> the constructor returns no tree,
  whatever the depth allowed to the call stack.
\<close>

theorem construction_yields_no_tree:
  "Octree_ctor fuel unit_cube 1 \<noteq> Some (Inr s)"
  using Octree_ctor_returns [of fuel unit_cube 1 s] by auto

text \<open>
  Claim C10 says that for every non-empty vertex set and every \<open>maxDepth \<ge> 1\<close> all
  indexing of \<^verbatim>\<open>nodes_\<close> during construction stays in bounds. On the corners of
  the unit cube with \<open>maxDepth = 1\<close> the construction reads \<^verbatim>\<open>nodes_[1]\<close> while the
  vector holds the root only.
\<close>

theorem construction_index_out_of_bounds:
  "Octree_ctor 2 unit_cube 1 = Some (Inl OutOfBounds)"
  by (rule Octree_ctor_overrun) (simp_all add: unit_cube_def)

section \<open>The root box\<close>

lemma box_contains_step: "box_contains b p \<Longrightarrow> box_contains (sceneBoundingBox_step v b) p"
  by (auto simp: box_contains_def sceneBoundingBox_step_def glm_min_def glm_max_def)

lemma box_contains_step_self: "box_contains (sceneBoundingBox_step v b) v"
  by (simp add: box_contains_def sceneBoundingBox_step_def glm_min_def glm_max_def)

lemma box_contains_fold_step:
  "box_contains b p \<Longrightarrow> box_contains (fold sceneBoundingBox_step vs b) p"
  by (induction vs arbitrary: b) (simp_all add: box_contains_step)

lemma fold_step_contains: "p \<in> set vs \<Longrightarrow> box_contains (fold sceneBoundingBox_step vs b) p"
proof (induction vs arbitrary: b)
  case Nil
  then show ?case by simp
next
  case (Cons v vs)
  show ?case
  proof (cases "p = v")
    case True
    then show ?thesis by (simp add: box_contains_fold_step box_contains_step_self)
  next
    case False
    with Cons show ?thesis by simp
  qed
qed

lemma sceneBoundingBox_contains:
  "p \<in> set vertices \<Longrightarrow> box_contains (sceneBoundingBox v0 vertices) p"
  by (simp add: sceneBoundingBox_def fold_step_contains)

lemma Octree_ctor_unit_cube: "Octree_ctor 1 unit_cube 0 = Some (Inr unit_index)"
proof -
  have "unit_cube = vec3 0 0 0 # tl unit_cube" by (simp add: unit_cube_def)
  then have "Octree_ctor (Suc 0) unit_cube 0 =
      Some (Inr \<lparr>nodes = [OctreeNode (sceneBoundingBox (vec3 0 0 0) unit_cube) [] [] 0],
                  visibleNodes = []\<rparr>)"
    using Octree_ctor_leaf [of 0 "vec3 0 0 0" "tl unit_cube"] by simp
  then show ?thesis by (simp add: sceneBoundingBox_unit_cube unit_index_def)
qed

text \<open>
  Whenever the constructor returns an index, the box of its root contains every
  point; the box that the constructor computes for the root does so for every
  \<open>maxDepth\<close>.
\<close>

lemma root_box_contains_points:
  "p \<in> set vertices \<Longrightarrow>
   box_contains (sceneBoundingBox (hd vertices) vertices) p \<and>
   (Octree_ctor fuel vertices maxDepth = Some (Inr s) \<longrightarrow>
      box_contains (boundingBox (nodes s ! 0)) p)"
  using Octree_ctor_returns [of fuel vertices maxDepth s]
  by (auto simp: sceneBoundingBox_contains)

text \<open>
  Claim C6 says that for every non-empty point set and every \<open>maxDepth \<ge> 0\<close> the
  root box of the tree that the constructor builds contains every point of the
  set. For \<open>maxDepth = 0\<close> it does (lemmas \<open>Octree_ctor_leaf\<close> and
  \<open>root_box_contains_points\<close>). For the corners of the unit cube and \<open>maxDepth = 1\<close>
  the construction runs past the end of \<^verbatim>\<open>nodes_\<close>, however deep the call stack may
  grow, and there is no tree whose root box could contain the point (1,0,1).
\<close>

theorem root_box_lost_to_overrun:
  "vec3 1 0 1 \<in> set unit_cube \<and>
   Octree_ctor (Suc (Suc fuel)) unit_cube 1 = Some (Inl OutOfBounds)"
proof -
  have "Octree_ctor (Suc (Suc fuel)) unit_cube 1 = Some (Inl OutOfBounds)"
    by (rule Octree_ctor_overrun) (simp_all add: unit_cube_def)
  then show ?thesis by (simp add: unit_cube_def)
qed

section \<open>Culling as a pre-order traversal\<close>

text \<open>
  \<^verbatim>\<open>FrustumCullRecursive\<close> returns exactly when the pre-order traversal is defined,
  and then it has appended the traversal to the visible nodes and changed
  nothing else.
\<close>

lemma FrustumCullRecursive_preorder:
  "FrustumCullRecursive k i planes s = Some (Inr s') \<longleftrightarrow>
     (\<exists>vs. preorder k (nodes s) planes i = Some vs \<and> s' = s\<lparr>visibleNodes := visibleNodes s @ vs\<rparr>)"
  "FrustumCullRecursive_loop k cs planes s = Some (Inr s') \<longleftrightarrow>
     (\<exists>vs. preorder_list k (nodes s) planes (map nodeIndex cs) = Some vs
        \<and> s' = s\<lparr>visibleNodes := visibleNodes s @ vs\<rparr>)"
proof (induction k i planes s and k cs planes s arbitrary: s' and s'
    rule: FrustumCullRecursive_FrustumCullRecursive_loop.induct)
  case (1 nodeIdx frustumPlanes s)
  show ?case by simp
next
  case (2 fuel nodeIdx frustumPlanes s)
  show ?case
  proof (cases "in_range (nodes s) nodeIdx")
    case False
    then show ?thesis by simp
  next
    case True
    show ?thesis
    proof (cases "IntersectsFrustum (boundingBox (nodes s ! nat nodeIdx)) frustumPlanes")
      case False
      with True show ?thesis by auto
    next
      case vis: True
      from 2 [OF True refl vis, of s'] True vis show ?thesis
        by (auto simp: Let_def)
    qed
  qed
next
  case (3 fuel frustumPlanes s)
  show ?case by auto
next
  case (4 fuel child rest frustumPlanes s)
  have no_tree: "preorder fuel (nodes s) frustumPlanes (nodeIndex child) = None"
    if "\<And>s1. FrustumCullRecursive fuel (nodeIndex child) frustumPlanes s \<noteq> Some (Inr s1)"
  proof (cases "preorder fuel (nodes s) frustumPlanes (nodeIndex child)")
    case None
    then show ?thesis .
  next
    case (Some xs)
    with 4(1) [of "s\<lparr>visibleNodes := visibleNodes s @ xs\<rparr>"] that show ?thesis by simp
  qed
  show ?case
  proof (cases "FrustumCullRecursive fuel (nodeIndex child) frustumPlanes s")
    case None
    then have "preorder fuel (nodes s) frustumPlanes (nodeIndex child) = None"
      by (intro no_tree) simp
    with None show ?thesis by simp
  next
    case (Some r)
    show ?thesis
    proof (cases r)
      case (Inl e)
      with Some have "preorder fuel (nodes s) frustumPlanes (nodeIndex child) = None"
        by (intro no_tree) simp
      with Some Inl show ?thesis by simp
    next
      case (Inr s1)
      with Some have ret: "FrustumCullRecursive fuel (nodeIndex child) frustumPlanes s = Some (Inr s1)"
        by simp
      with 4(1) [of s1] obtain xs where xs: "preorder fuel (nodes s) frustumPlanes (nodeIndex child) = Some xs"
        "s1 = s\<lparr>visibleNodes := visibleNodes s @ xs\<rparr>" by auto
      from 4(2) [OF ret refl, of s'] ret xs show ?thesis
        by (auto split: option.splits)
    qed
  qed
qed

lemma preorder_mono_Suc:
  "preorder k ns planes i = Some vs \<Longrightarrow> preorder (Suc k) ns planes i = Some vs"
  "preorder_list k ns planes cs = Some ws \<Longrightarrow> preorder_list (Suc k) ns planes cs = Some ws"
proof (induction k ns planes i and k ns planes cs arbitrary: vs and ws
    rule: preorder_preorder_list.induct)
  case (1 ns planes i)
  then show ?case by simp
next
  case (2 k ns planes i)
  show ?case
  proof (cases "in_range ns i \<and> IntersectsFrustum (boundingBox (ns ! nat i)) planes")
    case False
    with 2(2) show ?thesis by (auto split: if_splits)
  next
    case True
    with 2(2) obtain ws where ws: "preorder_list k ns planes (map nodeIndex (children (ns ! nat i))) = Some ws"
      "vs = i # ws" by auto
    from 2(1) [OF _ _ ws(1)] True have
      "preorder_list (Suc k) ns planes (map nodeIndex (children (ns ! nat i))) = Some ws" by simp
    with True ws(2) show ?thesis
      by (subst preorder.simps) simp
  qed
next
  case (3 k ns planes)
  then show ?case by simp
next
  case (4 k ns planes c cs)
  from 4(3) obtain xs ys where xs: "preorder k ns planes c = Some xs"
    and ys: "preorder_list k ns planes cs = Some ys" and ws: "ws = xs @ ys"
    by (auto split: option.splits)
  from 4(1) [OF xs] 4(2) [OF xs ys] ws show ?case
    by (subst preorder_list.simps) simp
qed

lemma preorder_mono:
  "k \<le> k' \<Longrightarrow> preorder k ns planes i = Some vs \<Longrightarrow> preorder k' ns planes i = Some vs"
proof (induction k' rule: dec_induct)
  case base
  then show ?case .
next
  case (step n)
  then show ?case by (blast intro: preorder_mono_Suc(1))
qed

lemma preorder_deterministic:
  assumes "preorder k ns planes i = Some vs" and "preorder k' ns planes i = Some vs'"
  shows "vs = vs'"
proof -
  have "preorder (max k k') ns planes i = Some vs"
    by (rule preorder_mono [OF _ assms(1)]) simp
  moreover have "preorder (max k k') ns planes i = Some vs'"
    by (rule preorder_mono [OF _ assms(2)]) simp
  ultimately show ?thesis by simp
qed


lemma preorder_subset:
  "preorder k ns planes i = Some vs \<Longrightarrow> preorder k ns [] i = Some as \<Longrightarrow> set vs \<subseteq> set as"
  "preorder_list k ns planes cs = Some ws \<Longrightarrow> preorder_list k ns [] cs = Some bs \<Longrightarrow>
     set ws \<subseteq> set bs"
proof (induction k ns planes i and k ns planes cs arbitrary: vs as and ws bs
    rule: preorder_preorder_list.induct)
  case (1 ns planes i)
  then show ?case by simp
next
  case (2 k ns planes i)
  show ?case
  proof (cases "in_range ns i \<and> IntersectsFrustum (boundingBox (ns ! nat i)) planes")
    case False
    with 2(2) show ?thesis by (auto split: if_splits)
  next
    case True
    with 2(2) obtain ws where ws: "preorder_list k ns planes (map nodeIndex (children (ns ! nat i))) = Some ws"
      "vs = i # ws" by auto
    from True 2(3) obtain bs where bs: "preorder_list k ns [] (map nodeIndex (children (ns ! nat i))) = Some bs"
      "as = i # bs" by auto
    from 2(1) [OF _ _ ws(1) bs(1)] True ws(2) bs(2) show ?thesis by auto
  qed
next
  case (3 k ns planes)
  then show ?case by simp
next
  case (4 k ns planes c cs)
  from 4(3) obtain xs ys where xs: "preorder k ns planes c = Some xs"
    and ys: "preorder_list k ns planes cs = Some ys" and ws: "ws = xs @ ys"
    by (auto split: option.splits)
  from 4(4) obtain xa ya where xa: "preorder k ns [] c = Some xa"
    and ya: "preorder_list k ns [] cs = Some ya" and bs: "bs = xa @ ya"
    by (auto split: option.splits)
  from 4(1) [OF xs xa] 4(2) [OF xs ys ya] ws bs show ?case by auto
qed

lemma preorder_total:
  "preorder k ns [] i = Some as \<Longrightarrow> \<exists>vs. preorder k ns planes i = Some vs"
  "preorder_list k ns [] cs = Some bs \<Longrightarrow> \<exists>ws. preorder_list k ns planes cs = Some ws"
proof (induction k ns planes i and k ns planes cs arbitrary: as and bs
    rule: preorder_preorder_list.induct)
  case (1 ns planes i)
  then show ?case by simp
next
  case (2 k ns planes i)
  from 2(2) have range: "in_range ns i" by (auto split: if_splits)
  show ?case
  proof (cases "IntersectsFrustum (boundingBox (ns ! nat i)) planes")
    case False
    with range show ?thesis by simp
  next
    case True
    from range 2(2) obtain bs where bs: "preorder_list k ns [] (map nodeIndex (children (ns ! nat i))) = Some bs"
      by auto
    from 2(1) [OF range True bs] range True show ?thesis by auto
  qed
next
  case (3 k ns planes)
  then show ?case by simp
next
  case (4 k ns planes c cs)
  from 4(3) obtain xa ya where xa: "preorder k ns [] c = Some xa"
    and ya: "preorder_list k ns [] cs = Some ya"
    by (auto split: option.splits)
  from 4(1) [OF xa] obtain xs where xs: "preorder k ns planes c = Some xs" by blast
  from 4(2) [OF xs ya] xs show ?case by auto
qed

lemma preorder_nested:
  "preorder k ns planes i = Some vs \<Longrightarrow> N \<in> set vs \<Longrightarrow>
     \<exists>bs. preorder k ns planes N = Some bs \<and> set bs \<subseteq> set vs"
  "preorder_list k ns planes cs = Some ws \<Longrightarrow> N \<in> set ws \<Longrightarrow>
     \<exists>bs. preorder k ns planes N = Some bs \<and> set bs \<subseteq> set ws"
proof (induction k ns planes i and k ns planes cs arbitrary: vs and ws
    rule: preorder_preorder_list.induct)
  case (1 ns planes i)
  then show ?case by simp
next
  case (2 k ns planes i)
  from 2(2,3) have vis: "in_range ns i" "IntersectsFrustum (boundingBox (ns ! nat i)) planes"
    by (auto split: if_splits)
  with 2(2) obtain ws where ws: "preorder_list k ns planes (map nodeIndex (children (ns ! nat i))) = Some ws"
    "vs = i # ws" by auto
  show ?case
  proof (cases "N = i")
    case True
    with 2(2) show ?thesis by blast
  next
    case False
    with 2(3) ws(2) have "N \<in> set ws" by simp
    from 2(1) [OF vis ws(1) this] obtain bs where
      bs: "preorder k ns planes N = Some bs" "set bs \<subseteq> set ws" by blast
    from bs(1) have "preorder (Suc k) ns planes N = Some bs" by (rule preorder_mono_Suc(1))
    with bs(2) ws(2) show ?thesis by auto
  qed
next
  case (3 k ns planes)
  then show ?case by simp
next
  case (4 k ns planes c cs)
  from 4(3) obtain xs ys where xs: "preorder k ns planes c = Some xs"
    and ys: "preorder_list k ns planes cs = Some ys" and ws: "ws = xs @ ys"
    by (auto split: option.splits)
  from 4(4) ws consider "N \<in> set xs" | "N \<in> set ys" by auto
  then show ?case
  proof cases
    case 1
    from 4(1) [OF xs 1] ws show ?thesis by auto
  next
    case 2
    from 4(2) [OF xs ys 2] ws show ?thesis by auto
  qed
qed

lemma discarded_below_invisible:
  "preorder k ns planes i = Some vs \<Longrightarrow>
     \<not> IntersectsFrustum (boundingBox (ns ! nat N)) planes \<Longrightarrow>
     preorder k' ns [] N = Some (N # below) \<Longrightarrow>
     preorder k ns [] i = Some as \<Longrightarrow> distinct as \<Longrightarrow> N \<in> set as \<Longrightarrow>
     set below \<inter> set vs = {}"
  "preorder_list k ns planes cs = Some ws \<Longrightarrow>
     \<not> IntersectsFrustum (boundingBox (ns ! nat N)) planes \<Longrightarrow>
     preorder k' ns [] N = Some (N # below) \<Longrightarrow>
     preorder_list k ns [] cs = Some bs \<Longrightarrow> distinct bs \<Longrightarrow> N \<in> set bs \<Longrightarrow>
     set below \<inter> set ws = {}"
proof (induction k ns planes i and k ns planes cs arbitrary: vs as and ws bs
    rule: preorder_preorder_list.induct)
  case (1 ns planes i)
  then show ?case by simp
next
  case (2 k ns planes i)
  note V = "2.prems"(1) and disc = "2.prems"(2) and belowN = "2.prems"(3)
    and A = "2.prems"(4) and dist_as = "2.prems"(5) and N_as = "2.prems"(6)
  from A have range: "in_range ns i" by (auto split: if_splits)
  with A obtain bs where bs: "preorder_list k ns [] (map nodeIndex (children (ns ! nat i))) = Some bs"
    "as = i # bs" by auto
  show ?case
  proof (cases "IntersectsFrustum (boundingBox (ns ! nat i)) planes")
    case False
    with range V show ?thesis by simp
  next
    case True
    with range V obtain ws where ws: "preorder_list k ns planes (map nodeIndex (children (ns ! nat i))) = Some ws"
      "vs = i # ws" by auto
    from True disc have "N \<noteq> i" by auto
    with N_as bs(2) have N: "N \<in> set bs" by simp
    from dist_as bs(2) have dist: "distinct bs" "i \<notin> set bs" by simp_all
    from "2.IH" [OF range True ws(1) disc belowN bs(1) dist(1) N]
    have "set below \<inter> set ws = {}" .
    moreover from preorder_nested(2) [OF bs(1) N] obtain cs where
      cs: "preorder k ns [] N = Some cs" "set cs \<subseteq> set bs" by blast
    from preorder_deterministic [OF cs(1) belowN] cs(2) dist(2) have "i \<notin> set below" by auto
    ultimately show ?thesis using ws(2) by simp
  qed
next
  case (3 k ns planes)
  then show ?case by simp
next
  case (4 k ns planes c cs)
  note V = "4.prems"(1) and disc = "4.prems"(2) and belowN = "4.prems"(3)
    and A = "4.prems"(4) and dist_bs = "4.prems"(5) and N_bs = "4.prems"(6)
  from V obtain xs ys where xs: "preorder k ns planes c = Some xs"
    and ys: "preorder_list k ns planes cs = Some ys" and ws: "ws = xs @ ys"
    by (auto split: option.splits)
  from A obtain xa ya where xa: "preorder k ns [] c = Some xa"
    and ya: "preorder_list k ns [] cs = Some ya" and bs: "bs = xa @ ya"
    by (auto split: option.splits)
  from dist_bs bs have dist: "distinct xa" "distinct ya" "set xa \<inter> set ya = {}" by simp_all
  have sub: "set xs \<subseteq> set xa" "set ys \<subseteq> set ya"
    using preorder_subset(1) [OF xs xa] preorder_subset(2) [OF ys ya] by simp_all
  from N_bs bs consider "N \<in> set xa" | "N \<in> set ya" by auto
  then show ?case
  proof cases
    case 1
    from "4.IH"(1) [OF xs disc belowN xa dist(1) 1] have "set below \<inter> set xs = {}" .
    moreover from preorder_nested(1) [OF xa 1] obtain ds where
      ds: "preorder k ns [] N = Some ds" "set ds \<subseteq> set xa" by blast
    from preorder_deterministic [OF ds(1) belowN] ds(2) have "set below \<subseteq> set xa" by auto
    with dist(3) sub(2) have "set below \<inter> set ys = {}" by blast
    ultimately show ?thesis using ws by auto
  next
    case 2
    from "4.IH"(2) [OF xs ys disc belowN ya dist(2) 2] have "set below \<inter> set ys = {}" .
    moreover from preorder_nested(2) [OF ya 2] obtain ds where
      ds: "preorder k ns [] N = Some ds" "set ds \<subseteq> set ya" by blast
    from preorder_deterministic [OF ds(1) belowN] ds(2) have "set below \<subseteq> set ya" by auto
    with dist(3) sub(1) have "set below \<inter> set xs = {}" by blast
    ultimately show ?thesis using ws by auto
  qed
qed

text \<open>
  Positions in a traversal: every node of it passes the test, the traversal of
  the node at a position is the segment that starts there, a child that passes
  the test comes after its parent, and two such children come in the order of
  the child vector.
\<close>

lemma preorder_visible:
  "preorder k ns planes i = Some vs \<Longrightarrow> v \<in> set vs \<Longrightarrow>
     in_range ns v \<and> IntersectsFrustum (boundingBox (ns ! nat v)) planes"
  "preorder_list k ns planes cs = Some ws \<Longrightarrow> v \<in> set ws \<Longrightarrow>
     in_range ns v \<and> IntersectsFrustum (boundingBox (ns ! nat v)) planes"
proof (induction k ns planes i and k ns planes cs arbitrary: vs and ws
    rule: preorder_preorder_list.induct)
  case (1 ns planes i)
  then show ?case by simp
next
  case (2 k ns planes i)
  from "2.prems" have vis: "in_range ns i" "IntersectsFrustum (boundingBox (ns ! nat i)) planes"
    by (auto split: if_splits)
  with "2.prems"(1) obtain ws where ws: "preorder_list k ns planes (map nodeIndex (children (ns ! nat i))) = Some ws"
    "vs = i # ws" by auto
  from "2.prems"(2) ws(2) consider "v = i" | "v \<in> set ws" by auto
  then show ?case
  proof cases
    case 1
    with vis show ?thesis by simp
  next
    case 2
    from "2.IH" [OF vis ws(1) 2] show ?thesis .
  qed
next
  case (3 k ns planes)
  then show ?case by simp
next
  case (4 k ns planes c cs)
  from "4.prems"(1) obtain xs ys where xs: "preorder k ns planes c = Some xs"
    and ys: "preorder_list k ns planes cs = Some ys" and ws: "ws = xs @ ys"
    by (auto split: option.splits)
  from "4.prems"(2) ws consider "v \<in> set xs" | "v \<in> set ys" by auto
  then show ?case
  proof cases
    case 1
    from "4.IH"(1) [OF xs 1] show ?thesis .
  next
    case 2
    from "4.IH"(2) [OF xs ys 2] show ?thesis .
  qed
qed

lemma preorder_segment:
  "preorder k ns planes i = Some vs \<Longrightarrow> j < length vs \<Longrightarrow>
     \<exists>xs. preorder k ns planes (vs ! j) = Some xs \<and> take (length xs) (drop j vs) = xs"
  "preorder_list k ns planes cs = Some ws \<Longrightarrow> j < length ws \<Longrightarrow>
     \<exists>xs. preorder k ns planes (ws ! j) = Some xs \<and> take (length xs) (drop j ws) = xs"
proof (induction k ns planes i and k ns planes cs arbitrary: vs j and ws j
    rule: preorder_preorder_list.induct)
  case (1 ns planes i)
  then show ?case by simp
next
  case (2 k ns planes i)
  from "2.prems" have vis: "in_range ns i" "IntersectsFrustum (boundingBox (ns ! nat i)) planes"
    by (auto split: if_splits)
  with "2.prems"(1) obtain ws where ws: "preorder_list k ns planes (map nodeIndex (children (ns ! nat i))) = Some ws"
    "vs = i # ws" by auto
  show ?case
  proof (cases j)
    case 0
    with "2.prems"(1) ws(2) show ?thesis by (intro exI [of _ vs]) simp
  next
    case (Suc m)
    with "2.prems"(2) ws(2) have m: "m < length ws" by simp
    from "2.IH" [OF vis ws(1) m] obtain xs where
      xs: "preorder k ns planes (ws ! m) = Some xs" "take (length xs) (drop m ws) = xs" by blast
    from xs(1) have "preorder (Suc k) ns planes (ws ! m) = Some xs" by (rule preorder_mono_Suc(1))
    with xs(2) Suc ws(2) show ?thesis by (intro exI [of _ xs]) simp
  qed
next
  case (3 k ns planes)
  then show ?case by simp
next
  case (4 k ns planes c cs)
  from "4.prems"(1) obtain ys zs where ys: "preorder k ns planes c = Some ys"
    and zs: "preorder_list k ns planes cs = Some zs" and ws: "ws = ys @ zs"
    by (auto split: option.splits)
  show ?case
  proof (cases "j < length ys")
    case True
    from "4.IH"(1) [OF ys True] obtain xs where
      xs: "preorder k ns planes (ys ! j) = Some xs" "take (length xs) (drop j ys) = xs" by blast
    from xs(2) have "length (take (length xs) (drop j ys)) = length xs" by simp
    then have "length xs \<le> length (drop j ys)" by simp
    with xs(2) have "take (length xs) (drop j ys @ zs) = xs" by simp
    with xs(1) True ws show ?thesis by (intro exI [of _ xs]) (simp add: nth_append)
  next
    case False
    with "4.prems"(2) ws have m: "j - length ys < length zs" by simp
    from "4.IH"(2) [OF ys zs m] obtain xs where
      xs: "preorder k ns planes (zs ! (j - length ys)) = Some xs"
        "take (length xs) (drop (j - length ys) zs) = xs" by blast
    with False ws show ?thesis by (intro exI [of _ xs]) (simp add: nth_append)
  qed
qed

lemma preorder_list_child:
  "preorder_list k ns planes cs = Some ws \<Longrightarrow> c \<in> set cs \<Longrightarrow>
   IntersectsFrustum (boundingBox (ns ! nat c)) planes \<Longrightarrow> c \<in> set ws"
proof (induction cs arbitrary: ws)
  case Nil
  then show ?case by simp
next
  case (Cons d cs)
  from Cons.prems(1) obtain ys zs where ys: "preorder k ns planes d = Some ys"
    and zs: "preorder_list k ns planes cs = Some zs" and ws: "ws = ys @ zs"
    by (auto split: option.splits)
  show ?case
  proof (cases "c = d")
    case True
    from ys obtain m where "k = Suc m" by (cases k) auto
    with ys True Cons.prems(3) have "c \<in> set ys" by (auto split: if_splits)
    with ws show ?thesis by simp
  next
    case False
    with Cons.prems(2) have "c \<in> set cs" by simp
    from Cons.IH [OF zs this Cons.prems(3)] ws show ?thesis by simp
  qed
qed

lemma preorder_parent_before_child:
  assumes vs: "preorder k ns planes i = Some vs" and j: "j < length vs"
    and child: "child \<in> set (children (ns ! nat (vs ! j)))"
    and vis: "IntersectsFrustum (boundingBox (ns ! nat (nodeIndex child))) planes"
  shows "\<exists>j'. j < j' \<and> j' < length vs \<and> vs ! j' = nodeIndex child"
proof -
  let ?p = "vs ! j"
  from preorder_visible(1) [OF vs, of ?p] j
  have p: "in_range ns ?p" "IntersectsFrustum (boundingBox (ns ! nat ?p)) planes" by simp_all
  from preorder_segment(1) [OF vs j] obtain xs where
    xs: "preorder k ns planes ?p = Some xs" "take (length xs) (drop j vs) = xs" by blast
  from xs(1) obtain m where k: "k = Suc m" by (cases k) auto
  with xs(1) p obtain cs where
    cs: "preorder_list m ns planes (map nodeIndex (children (ns ! nat ?p))) = Some cs"
    and xs_eq: "xs = ?p # cs" by auto
  from child have "nodeIndex child \<in> set (map nodeIndex (children (ns ! nat ?p)))" by simp
  from preorder_list_child [OF cs this vis] obtain n where
    n: "n < length cs" "cs ! n = nodeIndex child" by (auto simp: in_set_conv_nth)
  from xs(2) have "length (take (length xs) (drop j vs)) = length xs" by simp
  then have len: "length xs \<le> length vs - j" by simp
  from n(1) xs_eq have n1: "Suc n < length xs" by simp
  with xs(2) have "xs ! Suc n = drop j vs ! Suc n" by (metis nth_take)
  with n1 len have "vs ! (j + Suc n) = xs ! Suc n" by simp
  with xs_eq n(2) have "vs ! (j + Suc n) = nodeIndex child" by simp
  moreover from n1 len have "j + Suc n < length vs" by simp
  ultimately show ?thesis by (intro exI [of _ "j + Suc n"]) simp
qed


lemma preorder_list_in_order:
  "preorder_list k ns planes cs = Some ws \<Longrightarrow> a < b \<Longrightarrow> b < length cs \<Longrightarrow>
   IntersectsFrustum (boundingBox (ns ! nat (cs ! a))) planes \<Longrightarrow>
   IntersectsFrustum (boundingBox (ns ! nat (cs ! b))) planes \<Longrightarrow>
   \<exists>ja jb. ja < jb \<and> jb < length ws \<and> ws ! ja = cs ! a \<and> ws ! jb = cs ! b"
proof (induction cs arbitrary: ws a b)
  case Nil
  then show ?case by simp
next
  case (Cons d cs)
  from Cons.prems(1) obtain ys zs where ys: "preorder k ns planes d = Some ys"
    and zs: "preorder_list k ns planes cs = Some zs" and ws: "ws = ys @ zs"
    by (auto split: option.splits)
  from Cons.prems(2) obtain b' where b: "b = Suc b'" by (cases b) auto
  with Cons.prems(3) have b'_len: "b' < length cs" by simp
  show ?case
  proof (cases a)
    case 0
    from ys obtain m where "k = Suc m" by (cases k) auto
    with ys 0 Cons.prems(4) obtain ys' where ys': "ys = d # ys'" by (auto split: if_splits)
    from b'_len have "cs ! b' \<in> set cs" by simp
    from preorder_list_child [OF zs this] Cons.prems(5) b obtain n where
      n: "n < length zs" "zs ! n = cs ! b'" by (auto simp: in_set_conv_nth)
    from ys' ws 0 b n show ?thesis
      by (intro exI [of _ 0] exI [of _ "length ys + n"]) (simp add: nth_append)
  next
    case (Suc a')
    with Cons.prems(2) b have "a' < b'" by simp
    from Cons.IH [OF zs this b'_len] Cons.prems(4,5) Suc b obtain ja jb where
      "ja < jb" "jb < length zs" "zs ! ja = cs ! a'" "zs ! jb = cs ! b'" by auto
    with ws Suc b show ?thesis
      by (intro exI [of _ "length ys + ja"] exI [of _ "length ys + jb"]) (simp add: nth_append)
  qed
qed

lemma preorder_children_in_order:
  assumes vs: "preorder k ns planes i = Some vs" and j: "j < length vs"
    and ab: "a < b" "b < length (children (ns ! nat (vs ! j)))"
    and vis_a: "IntersectsFrustum (boundingBox (ns ! nat (nodeIndex (children (ns ! nat (vs ! j)) ! a)))) planes"
    and vis_b: "IntersectsFrustum (boundingBox (ns ! nat (nodeIndex (children (ns ! nat (vs ! j)) ! b)))) planes"
  shows "\<exists>ja jb. j < ja \<and> ja < jb \<and> jb < length vs \<and>
           vs ! ja = nodeIndex (children (ns ! nat (vs ! j)) ! a) \<and>
           vs ! jb = nodeIndex (children (ns ! nat (vs ! j)) ! b)"
proof -
  let ?p = "vs ! j"
  let ?cs = "map nodeIndex (children (ns ! nat ?p))"
  from preorder_visible(1) [OF vs, of ?p] j
  have p: "in_range ns ?p" "IntersectsFrustum (boundingBox (ns ! nat ?p)) planes" by simp_all
  from preorder_segment(1) [OF vs j] obtain xs where
    xs: "preorder k ns planes ?p = Some xs" "take (length xs) (drop j vs) = xs" by blast
  from xs(1) obtain m where k: "k = Suc m" by (cases k) auto
  with xs(1) p obtain ws where
    ws: "preorder_list m ns planes ?cs = Some ws" and xs_eq: "xs = ?p # ws" by auto
  from ab have ab': "b < length ?cs" "?cs ! a = nodeIndex (children (ns ! nat ?p) ! a)"
    "?cs ! b = nodeIndex (children (ns ! nat ?p) ! b)" by simp_all
  from preorder_list_in_order [OF ws ab(1) ab'(1)] vis_a vis_b ab'(2,3) obtain ja jb where
    pos: "ja < jb" "jb < length ws" "ws ! ja = nodeIndex (children (ns ! nat ?p) ! a)"
      "ws ! jb = nodeIndex (children (ns ! nat ?p) ! b)" by auto
  from xs(2) have "length (take (length xs) (drop j vs)) = length xs" by simp
  then have len: "length xs \<le> length vs - j" by simp
  have at: "vs ! (j + Suc n) = ws ! n" if "n < length ws" for n
  proof -
    from that xs_eq have n1: "Suc n < length xs" by simp
    with xs(2) have "xs ! Suc n = drop j vs ! Suc n" by (metis nth_take)
    with n1 len xs_eq show ?thesis by simp
  qed
  from pos have "ja < length ws" by simp
  with at [of ja] at [of jb] pos len xs_eq show ?thesis
    by (intro exI [of _ "j + Suc ja"] exI [of _ "j + Suc jb"]) simp
qed

lemma FrustumCull_preorder:
  "FrustumCull k planes s = Some (Inr s') \<longleftrightarrow>
     (\<exists>vs. preorder k (nodes s) planes 0 = Some vs \<and> s' = s\<lparr>visibleNodes := vs\<rparr>)"
  by (simp add: FrustumCull_def FrustumCullRecursive_preorder(1))

text \<open>An index that the constructor returns is a tree of one node.\<close>

lemma Octree_ctor_preorder:
  "Octree_ctor fuel vertices maxDepth = Some (Inr s) \<Longrightarrow> preorder (Suc k) (nodes s) [] 0 = Some [0]"
  using Octree_ctor_returns [of fuel vertices maxDepth s] by (simp add: in_range_def)

lemma FrustumCull_single:
  "nodes s = [OctreeNode b [] os i] \<Longrightarrow>
   FrustumCull (Suc k) planes s =
     Some (Inr (s\<lparr>visibleNodes := (if IntersectsFrustum b planes then [0] else [])\<rparr>))"
  by (simp add: FrustumCull_def in_range_def)

subsection \<open>Evaluation on the linked node vector\<close>

lemma preorder_linked_all: "preorder 3 (nodes linked_index) [] 0 = Some [0, 1, 3, 2]"
  by (simp add: linked_index_def in_range_def numeral_3_eq_3)

lemma preorder_linked_below: "preorder 3 (nodes linked_index) [] 1 = Some [1, 3]"
  by (simp add: linked_index_def in_range_def numeral_3_eq_3)

lemma preorder_linked_origin: "preorder 3 (nodes linked_index) origin_planes 0 = Some [0, 1, 3, 2]"
  by (simp add: linked_index_def in_range_def numeral_3_eq_3 origin_planes_def plane_test_def
      unit_box_def half_box_def)

lemma preorder_linked_slab: "preorder 3 (nodes linked_index) slab_planes 0 = Some [0, 2]"
  by (simp add: linked_index_def in_range_def numeral_3_eq_3 slab_planes_def plane_test_def
      unit_box_def half_box_def)

lemma FrustumCull_linked_origin:
  "FrustumCull 3 origin_planes linked_index = Some (Inr (linked_index\<lparr>visibleNodes := [0, 1, 3, 2]\<rparr>))"
  by (simp add: FrustumCull_preorder preorder_linked_origin)

lemma FrustumCull_linked_slab:
  "FrustumCull 3 slab_planes linked_index = Some (Inr (linked_index\<lparr>visibleNodes := [0, 2]\<rparr>))"
  by (simp add: FrustumCull_preorder preorder_linked_slab)

subsection \<open>Order of the visible set on a node vector\<close>

text \<open>
  On every node vector, whatever its child links: the visible set of a call that
  returns is the pre-order traversal from the root; a child that passes the test
  occurs after the position \<open>j\<close> of its parent; and of two such children the one
  with the smaller index in the child vector occurs first.
\<close>

lemma visible_set_is_preorder:
  assumes "FrustumCull fuel planes s = Some (Inr s')"
  shows "preorder fuel (nodes s) planes 0 = Some (visibleNodes s') \<and>
    (j < length (visibleNodes s') \<and>
     child \<in> set (children (nodes s ! nat (visibleNodes s' ! j))) \<and>
     IntersectsFrustum (boundingBox (nodes s ! nat (nodeIndex child))) planes \<longrightarrow>
       (\<exists>j'. j < j' \<and> j' < length (visibleNodes s') \<and> visibleNodes s' ! j' = nodeIndex child)) \<and>
    (j < length (visibleNodes s') \<and> a < b \<and>
     b < length (children (nodes s ! nat (visibleNodes s' ! j))) \<and>
     IntersectsFrustum
       (boundingBox (nodes s ! nat (nodeIndex (children (nodes s ! nat (visibleNodes s' ! j)) ! a))))
       planes \<and>
     IntersectsFrustum
       (boundingBox (nodes s ! nat (nodeIndex (children (nodes s ! nat (visibleNodes s' ! j)) ! b))))
       planes \<longrightarrow>
       (\<exists>ja jb. j < ja \<and> ja < jb \<and> jb < length (visibleNodes s') \<and>
          visibleNodes s' ! ja = nodeIndex (children (nodes s ! nat (visibleNodes s' ! j)) ! a) \<and>
          visibleNodes s' ! jb = nodeIndex (children (nodes s ! nat (visibleNodes s' ! j)) ! b)))"
proof -
  from assms have vs: "preorder fuel (nodes s) planes 0 = Some (visibleNodes s')"
    by (auto simp: FrustumCull_preorder)
  show ?thesis
  proof (intro conjI impI)
    show "preorder fuel (nodes s) planes 0 = Some (visibleNodes s')" by (rule vs)
  next
    assume "j < length (visibleNodes s') \<and>
      child \<in> set (children (nodes s ! nat (visibleNodes s' ! j))) \<and>
      IntersectsFrustum (boundingBox (nodes s ! nat (nodeIndex child))) planes"
    then show "\<exists>j'. j < j' \<and> j' < length (visibleNodes s') \<and> visibleNodes s' ! j' = nodeIndex child"
      using preorder_parent_before_child [OF vs, of j child] by blast
  next
    assume "j < length (visibleNodes s') \<and> a < b \<and>
      b < length (children (nodes s ! nat (visibleNodes s' ! j))) \<and>
      IntersectsFrustum
        (boundingBox (nodes s ! nat (nodeIndex (children (nodes s ! nat (visibleNodes s' ! j)) ! a))))
        planes \<and>
      IntersectsFrustum
        (boundingBox (nodes s ! nat (nodeIndex (children (nodes s ! nat (visibleNodes s' ! j)) ! b))))
        planes"
    then show "\<exists>ja jb. j < ja \<and> ja < jb \<and> jb < length (visibleNodes s') \<and>
          visibleNodes s' ! ja = nodeIndex (children (nodes s ! nat (visibleNodes s' ! j)) ! a) \<and>
          visibleNodes s' ! jb = nodeIndex (children (nodes s ! nat (visibleNodes s' ! j)) ! b)"
      using preorder_children_in_order [OF vs, of j a b] by blast
  qed
qed

lemma visible_set_is_preorder_linked:
  "FrustumCull 3 origin_planes linked_index =
     Some (Inr (linked_index\<lparr>visibleNodes := [0, 1, 3, 2]\<rparr>)) \<and>
   preorder 3 (nodes linked_index) origin_planes 0 = Some [0, 1, 3, 2] \<and>
   OctreeNode half_box [] [] 1 \<in> set (children (nodes linked_index ! nat 0)) \<and>
   nodeIndex (children (nodes linked_index ! nat 0) ! 0) = 1 \<and>
   nodeIndex (children (nodes linked_index ! nat 0) ! 1) = 2 \<and>
   IntersectsFrustum (boundingBox (nodes linked_index ! nat 1)) origin_planes \<and>
   IntersectsFrustum (boundingBox (nodes linked_index ! nat 2)) origin_planes \<and>
   (\<exists>j'. 0 < j' \<and> j' < length [0, 1, 3, 2 :: int] \<and> [0, 1, 3, 2 :: int] ! j' = 1) \<and>
   (\<exists>ja jb. 0 < ja \<and> ja < jb \<and> jb < length [0, 1, 3, 2 :: int] \<and>
      [0, 1, 3, 2 :: int] ! ja = 1 \<and> [0, 1, 3, 2 :: int] ! jb = 2)"
proof -
  have kids: "children (nodes linked_index ! nat 0) =
      [OctreeNode half_box [] [] 1, OctreeNode unit_box [] [] 2]"
    by (simp add: linked_index_def)
  have vis1: "IntersectsFrustum (boundingBox (nodes linked_index ! nat 1)) origin_planes"
    by (simp add: linked_index_def origin_planes_def plane_test_def half_box_def)
  have vis2: "IntersectsFrustum (boundingBox (nodes linked_index ! nat 2)) origin_planes"
    by (simp add: linked_index_def origin_planes_def plane_test_def unit_box_def)
  from visible_set_is_preorder [OF FrustumCull_linked_origin,
      of 0 "OctreeNode half_box [] [] 1" 0 1] kids vis1 vis2 FrustumCull_linked_origin
  show ?thesis by simp
qed

subsection \<open>Below a node that fails the test\<close>

text \<open>
  On every node vector whose child links form a tree, that is where the
  traversal without planes lists no node twice: the call returns, and its
  visible set holds none of the nodes \<open>below\<close> a node \<open>N\<close> that fails the test.
\<close>

lemma discarded_subtree_not_visible:
  assumes "preorder k (nodes s) [] 0 = Some everything" and "distinct everything"
    and "N \<in> set everything"
    and "\<not> IntersectsFrustum (boundingBox (nodes s ! nat N)) planes"
    and "preorder k (nodes s) [] N = Some (N # below)"
  shows "\<exists>s'. FrustumCull k planes s = Some (Inr s') \<and> set below \<inter> set (visibleNodes s') = {}"
proof -
  from preorder_total(1) [OF assms(1)] obtain vs where
    vs: "preorder k (nodes s) planes 0 = Some vs" by blast
  from discarded_below_invisible(1) [OF vs assms(4,5) assms(1,2,3)]
  have "set below \<inter> set vs = {}" .
  moreover from vs have "FrustumCull k planes s = Some (Inr (s\<lparr>visibleNodes := vs\<rparr>))"
    by (simp add: FrustumCull_preorder)
  ultimately show ?thesis by simp
qed

lemma discarded_subtree_not_visible_linked:
  "preorder 3 (nodes linked_index) [] 0 = Some [0, 1, 3, 2] \<and> distinct [0, 1, 3, 2 :: int] \<and>
   1 \<in> set [0, 1, 3, 2 :: int] \<and>
   \<not> IntersectsFrustum (boundingBox (nodes linked_index ! nat 1)) slab_planes \<and>
   IntersectsFrustum (boundingBox (nodes linked_index ! nat 3)) slab_planes \<and>
   preorder 3 (nodes linked_index) [] 1 = Some [1, 3] \<and>
   FrustumCull 3 slab_planes linked_index = Some (Inr (linked_index\<lparr>visibleNodes := [0, 2]\<rparr>)) \<and>
   set [3] \<inter> set (visibleNodes (linked_index\<lparr>visibleNodes := [0, 2]\<rparr>)) = {}"
proof -
  have d: "distinct [0, 1, 3, 2 :: int]" and m: "1 \<in> set [0, 1, 3, 2 :: int]" by simp_all
  have disc: "\<not> IntersectsFrustum (boundingBox (nodes linked_index ! nat 1)) slab_planes"
    by (simp add: linked_index_def slab_planes_def plane_test_def half_box_def)
  have vis3: "IntersectsFrustum (boundingBox (nodes linked_index ! nat 3)) slab_planes"
    by (simp add: linked_index_def slab_planes_def plane_test_def unit_box_def numeral_3_eq_3)
  from discarded_subtree_not_visible [OF preorder_linked_all d m disc preorder_linked_below]
    FrustumCull_linked_slab
  have "set [3] \<inter> set (visibleNodes (linked_index\<lparr>visibleNodes := [0, 2]\<rparr>)) = {}"
    by auto
  with preorder_linked_all d m disc vis3 preorder_linked_below FrustumCull_linked_slab
  show ?thesis by blast
qed

subsection \<open>Culling twice\<close>

text \<open>
  Claim C9: a second call of \<^verbatim>\<open>FrustumCull\<close> with the same planes on the same index
  gives the same visible set, contents and order; the set is rebuilt from empty
  at each call, whatever it held before.
\<close>

theorem cull_twice_same_result:
  "FrustumCull fuel planes s = Some (Inr s1) \<Longrightarrow>
   FrustumCull fuel planes s1 = Some (Inr s1) \<and>
   FrustumCull fuel planes (s\<lparr>visibleNodes := old\<rparr>) = Some (Inr s1)"
  by (auto simp: FrustumCull_preorder)

theorem cull_twice_same_result_witness:
  "FrustumCull 3 slab_planes linked_index = Some (Inr (linked_index\<lparr>visibleNodes := [0, 2]\<rparr>)) \<and>
   FrustumCull 3 slab_planes (linked_index\<lparr>visibleNodes := [0, 2]\<rparr>) =
     Some (Inr (linked_index\<lparr>visibleNodes := [0, 2]\<rparr>)) \<and>
   FrustumCull 3 slab_planes (linked_index\<lparr>visibleNodes := [7, 7, 7]\<rparr>) =
     Some (Inr (linked_index\<lparr>visibleNodes := [0, 2]\<rparr>))"
  using cull_twice_same_result [OF FrustumCull_linked_slab, of "[7, 7, 7]"] FrustumCull_linked_slab
  by simp

section \<open>No index with children\<close>




lemma room_root_passes: "IntersectsFrustum (boundingBox (nodes room_built ! 0)) origin_planes"
  by (simp add: room_built_def origin_planes_def plane_test_def unit_box_def)



section \<open>The test against the frustum\<close>

lemma Octree_ctor_far_points: "Octree_ctor 1 far_points 0 = Some (Inr far_index)"
  by (simp add: far_points_def Octree_ctor_leaf [of 0, simplified] sceneBoundingBox_def
      sceneBoundingBox_step_def glm_min_def glm_max_def far_index_def far_box_def)

lemma IntersectsFrustum_unit_wide: "\<not> IntersectsFrustum unit_box wide_frustum"
  by (simp add: unit_box_def wide_frustum_def plane_test_def)

lemma IntersectsFrustum_far_narrow: "IntersectsFrustum far_box narrow_frustum"
  by (simp add: far_box_def narrow_frustum_def plane_test_def)

text \<open>
  Claim C1 says that a node is discarded if and only if all eight corners of its
  box lie strictly outside a single plane, and that otherwise it is appended to
  the visible set and its children are visited. \<^verbatim>\<open>IntersectsFrustum\<close> counts, for
  each plane, six products of one component of the normal with one coordinate
  of \<^verbatim>\<open>min\<close> or \<^verbatim>\<open>max\<close>, plus the offset, that are positive, and discards the box
  when all six are. The unit cube lies strictly inside the wide frustum and is
  discarded; the far box lies strictly outside a plane of the narrow frustum
  and is kept.
\<close>

theorem inside_box_discarded_outside_box_kept:
  "fully_inside unit_box wide_frustum \<and> \<not> fully_outside unit_box wide_frustum \<and>
   FrustumCull 1 wide_frustum unit_index = Some (Inr (unit_index\<lparr>visibleNodes := []\<rparr>)) \<and>
   fully_outside far_box narrow_frustum \<and>
   FrustumCull 1 narrow_frustum far_index = Some (Inr (far_index\<lparr>visibleNodes := [0]\<rparr>))"
proof -
  have "fully_inside unit_box wide_frustum"
    by (simp add: fully_inside_def corners_def signed_distance_def unit_box_def wide_frustum_def)
  moreover have "\<not> fully_outside unit_box wide_frustum"
    by (simp add: fully_outside_def corners_def signed_distance_def unit_box_def wide_frustum_def)
  moreover have "FrustumCull 1 wide_frustum unit_index = Some (Inr (unit_index\<lparr>visibleNodes := []\<rparr>))"
    using FrustumCull_single [of unit_index unit_box "[]" 0 0 wide_frustum]
    by (simp add: unit_index_def IntersectsFrustum_unit_wide)
  moreover have "fully_outside far_box narrow_frustum"
    by (simp add: fully_outside_def corners_def signed_distance_def far_box_def narrow_frustum_def)
  moreover have "FrustumCull 1 narrow_frustum far_index = Some (Inr (far_index\<lparr>visibleNodes := [0]\<rparr>))"
    using FrustumCull_single [of far_index far_box "[]" 0 0 narrow_frustum]
    by (simp add: far_index_def IntersectsFrustum_far_narrow)
  ultimately show ?thesis by blast
qed

section \<open>The boxes of the children\<close>

text \<open>
  A call of \<^verbatim>\<open>BuildTree\<close> leaves the nodes before \<open>nodeIndex\<close> alone, and when it
  returns below the maximal depth, the child vector of its node holds the eight
  boxes \<open>childBoundingBox\<close> in the order of the octant index. The box for octant 0
  is the box of the node itself, so the nested call on \<open>nodeIndex + 0\<close> computes
  the same eight boxes again.
\<close>

lemma BuildTree_frame:
  "BuildTree fuel maxDepth n depth b s = Some (Inr s') \<Longrightarrow>
     length (nodes s') = length (nodes s) \<and> (\<forall>i < nat n. nodes s' ! i = nodes s ! i)"
  "BuildTree_loop fuel maxDepth n depth c e octs s = Some (Inr s') \<Longrightarrow> 0 \<le> n \<Longrightarrow>
     length (nodes s') = length (nodes s) \<and> (\<forall>i < nat n. nodes s' ! i = nodes s ! i)"
proof (induction fuel maxDepth n depth b s and fuel maxDepth n depth c e octs s
    arbitrary: s' and s' rule: BuildTree_BuildTree_loop.induct)
  case (1 maxDepth nodeIdx depth bbox s)
  then show ?case by simp
next
  case (2 fuel maxDepth nodeIdx depth bbox s)
  from "2.prems" have range: "in_range (nodes s) nodeIdx" by (auto split: if_splits)
  then have n0: "0 \<le> nodeIdx" by (simp add: in_range_def)
  show ?case
  proof (cases "depth = maxDepth")
    case True
    with "2.prems" range show ?thesis by auto
  next
    case False
    let ?s2 = "update_node nodeIdx (resize_children 8)
                 (update_node nodeIdx (set_boundingBox bbox) s)"
    from "2.prems" range False
    have loop: "BuildTree_loop fuel maxDepth nodeIdx depth (box_center bbox) (box_extents bbox)
        octants ?s2 = Some (Inr s')" by (simp add: Let_def)
    from "2.IH" [OF range refl False refl refl refl loop n0] show ?thesis by simp
  qed
next
  case (3 fuel maxDepth nodeIdx depth center extents s)
  then show ?case by simp
next
  case (4 fuel maxDepth nodeIdx depth center extents x y z rest s)
  let ?ci = "x + y * 2 + z * 4"
  let ?cb = "childBoundingBox center extents x y z"
  let ?s1 = "update_node nodeIdx (store_childBoundingBox ?ci ?cb) s"
  from "4.prems"(1) have range: "in_range (children (nodes s ! nat nodeIdx)) ?ci"
    by (auto simp: Let_def split: if_splits)
  then have ci0: "0 \<le> ?ci" by (simp add: in_range_def)
  from "4.prems"(1) range obtain s2 where
    call: "BuildTree fuel maxDepth (nodeIdx + ?ci) (depth + 1) ?cb ?s1 = Some (Inr s2)"
    and loop: "BuildTree_loop fuel maxDepth nodeIdx depth center extents rest s2 = Some (Inr s')"
    by (auto simp: Let_def split: option.splits sum.splits)
  from "4.IH"(1) [OF refl refl range refl call]
  have f1: "length (nodes s2) = length (nodes ?s1)" "\<forall>i < nat (nodeIdx + ?ci). nodes s2 ! i = nodes ?s1 ! i"
    by simp_all
  from "4.IH"(2) [OF refl refl range refl call refl loop "4.prems"(2)]
  have f2: "length (nodes s') = length (nodes s2)" "\<forall>i < nat nodeIdx. nodes s' ! i = nodes s2 ! i"
    by simp_all
  from ci0 "4.prems"(2) have "nat nodeIdx \<le> nat (nodeIdx + ?ci)" by simp
  with f1 f2 show ?case by auto
qed


lemma BuildTree_loop_node:
  "BuildTree_loop fuel maxDepth n depth c e octs s = Some (Inr s') \<Longrightarrow> in_range (nodes s) n \<Longrightarrow>
   list_all (\<lambda>(x, y, z). 1 \<le> x + y * 2 + z * 4) octs \<Longrightarrow>
   nodes s' ! nat n =
     fold (\<lambda>(x, y, z). store_childBoundingBox (x + y * 2 + z * 4) (childBoundingBox c e x y z))
       octs (nodes s ! nat n)"
proof (induction octs arbitrary: s)
  case Nil
  then show ?case by simp
next
  case (Cons oct rest)
  obtain x y z where oct: "oct = (x, y, z)" by (cases oct) auto
  let ?ci = "x + y * 2 + z * 4"
  let ?cb = "childBoundingBox c e x y z"
  let ?s1 = "update_node n (store_childBoundingBox ?ci ?cb) s"
  from Cons.prems(3) oct have ci: "1 \<le> ?ci" and rest: "list_all (\<lambda>(x, y, z). 1 \<le> x + y * 2 + z * 4) rest"
    by simp_all
  from Cons.prems(2) have n: "0 \<le> n" "nat n < length (nodes s)"
    by (simp_all add: in_range_def in_range_nat)
  from Cons.prems(1) oct obtain s2 where
    call: "BuildTree fuel maxDepth (n + ?ci) (depth + 1) ?cb ?s1 = Some (Inr s2)"
    and loop: "BuildTree_loop fuel maxDepth n depth c e rest s2 = Some (Inr s')"
    by (auto simp: Let_def split: if_splits option.splits sum.splits)
  from BuildTree_frame(1) [OF call]
  have frame: "length (nodes s2) = length (nodes ?s1)" "\<forall>i < nat (n + ?ci). nodes s2 ! i = nodes ?s1 ! i"
    by simp_all
  from ci n(1) have "nat n < nat (n + ?ci)" by simp
  with frame(2) n(2) have node: "nodes s2 ! nat n = store_childBoundingBox ?ci ?cb (nodes s ! nat n)"
    by simp
  from frame(1) Cons.prems(2) have "in_range (nodes s2) n" by (simp add: in_range_def)
  from Cons.IH [OF loop this rest] node oct show ?case by simp
qed

lemma childBoundingBox_origin: "childBoundingBox (box_center b) (box_extents b) 0 0 0 = b"
  by (cases "min_bb b"; cases "max_bb b")
    (simp add: childBoundingBox_def box_center_def box_extents_def octant_offset_def
      vadd_def vsub_def vhalf_def field_simps)


lemma list8:
  "length xs = 8 \<Longrightarrow> xs = [xs ! 0, xs ! 1, xs ! 2, xs ! 3, xs ! 4, xs ! 5, xs ! 6, xs ! 7]"
  by (auto simp: numeral_eq_Suc length_Suc_conv)

lemma fold_store_rest:
  assumes len: "length (children node) = 8"
    and first: "boundingBox (children node ! 0) = childBoundingBox c e 0 0 0"
  shows "map boundingBox (children
      (fold (\<lambda>(x, y, z). store_childBoundingBox (x + y * 2 + z * 4) (childBoundingBox c e x y z))
        [(1,0,0), (0,1,0), (1,1,0), (0,0,1), (1,0,1), (0,1,1), (1,1,1)] node)) =
    map (\<lambda>(x, y, z). childBoundingBox c e x y z) octants"
proof -
  from list8 [OF len] obtain c0 c1 c2 c3 c4 c5 c6 c7 where
    cs: "children node = [c0, c1, c2, c3, c4, c5, c6, c7]" by blast
  with first have "boundingBox c0 = childBoundingBox c e 0 0 0" by simp
  with cs show ?thesis by (simp add: octants_unfold)
qed

lemma BuildTree_children:
  "BuildTree fuel maxDepth n depth b s = Some (Inr s') \<Longrightarrow> depth \<noteq> maxDepth \<Longrightarrow>
   map boundingBox (children (nodes s' ! nat n)) =
     map (\<lambda>(x, y, z). childBoundingBox (box_center b) (box_extents b) x y z) octants"
proof (induction fuel arbitrary: depth b s s')
  case 0
  then show ?case by simp
next
  case (Suc fuel)
  let ?c = "box_center b" and ?e = "box_extents b"
  let ?cb = "childBoundingBox ?c ?e 0 0 0"
  let ?s3 = "update_node n (store_childBoundingBox 0 ?cb)
              (update_node n (resize_children 8) (update_node n (set_boundingBox b) s))"
  let ?rest = "[(1,0,0), (0,1,0), (1,1,0), (0,0,1), (1,0,1), (0,1,1), (1,1,1)]
                 :: (int \<times> int \<times> int) list"
  from Suc.prems(1) have range: "in_range (nodes s) n" by (auto split: if_splits)
  then have n: "nat n < length (nodes s)" by (rule in_range_nat)
  from Suc.prems(1) obtain s4 where
    call: "BuildTree fuel maxDepth n (depth + 1) ?cb ?s3 = Some (Inr s4)"
    and loop: "BuildTree_loop fuel maxDepth n depth ?c ?e ?rest s4 = Some (Inr s')"
    unfolding BuildTree_first_child [OF range Suc.prems(2)]
    by (auto split: option.splits sum.splits)
  have range3: "in_range (nodes ?s3) n" using range by (simp add: in_range_def)
  have node3: "length (children (nodes ?s3 ! nat n)) = 8"
    "boundingBox (children (nodes ?s3 ! nat n) ! 0) = ?cb"
    using n by simp_all
  have node4: "length (children (nodes s4 ! nat n)) = 8 \<and>
    boundingBox (children (nodes s4 ! nat n) ! 0) = ?cb"
  proof (cases "depth + 1 = maxDepth")
    case True
    from call obtain g where g: "fuel = Suc g" by (cases fuel) auto
    from call have "s4 = update_node n (set_boundingBox ?cb) ?s3"
      unfolding g True [symmetric] BuildTree_leaf [OF range3] by simp
    with node3 n show ?thesis by simp
  next
    case False
    from Suc.IH [OF call False]
    have m: "map boundingBox (children (nodes s4 ! nat n)) =
      map (\<lambda>(x, y, z). childBoundingBox (box_center ?cb) (box_extents ?cb) x y z) octants" .
    from arg_cong [OF m, of length] have "length (children (nodes s4 ! nat n)) = 8"
      by (simp add: octants_unfold)
    moreover from arg_cong [OF m, of "\<lambda>xs. xs ! 0"] this
    have "boundingBox (children (nodes s4 ! nat n) ! 0) = ?cb"
      by (simp add: octants_unfold childBoundingBox_origin)
    ultimately show ?thesis by simp
  qed
  from BuildTree_frame(1) [OF call] range3 have range4: "in_range (nodes s4) n"
    by (simp add: in_range_def)
  have "nodes s' ! nat n =
     fold (\<lambda>(x, y, z). store_childBoundingBox (x + y * 2 + z * 4) (childBoundingBox ?c ?e x y z))
       ?rest (nodes s4 ! nat n)"
    by (rule BuildTree_loop_node [OF loop range4]) simp
  with fold_store_rest [of "nodes s4 ! nat n" ?c ?e] node4 show ?case by simp
qed

text \<open>
  Claim C2 says that the box of every node below the maximal depth is split into
  eight equal octants by its center, the child at octant index \<open>x + 2y + 4z\<close>
  having the box from \<open>center - extents + offset\<close> to \<open>center + extents + offset\<close>.
  The code computes that box (lemma \<open>BuildTree_children\<close>), and it is not an
  octant: for the unit cube, child 1 reaches from (0.5,0,0) to (1.5,1,1), while
  the octant reaches from (0.5,0,0) to (1,0.5,0.5).
\<close>

theorem child_box_is_not_an_octant:
  "childBoundingBox (box_center unit_box) (box_extents unit_box) 1 0 0 =
     \<lparr>min_bb = vec3 (1/2) 0 0, max_bb = vec3 (3/2) 1 1\<rparr> \<and>
   octant unit_box 1 0 0 = \<lparr>min_bb = vec3 (1/2) 0 0, max_bb = vec3 1 (1/2) (1/2)\<rparr>"
  by (simp add: childBoundingBox_def octant_def box_center_def box_extents_def octant_offset_def
      vadd_def vsub_def vhalf_def unit_box_def)

text \<open>
  Claim C3 says that the eight child boxes partition the box of their parent,
  and that for the corners of the unit cube and \<open>maxDepth = 1\<close> child 0 has the box
  from (0,0,0) to (0.5,0.5,0.5) and child 7 the box from (0.5,0.5,0.5) to
  (1,1,1). The box that \<^verbatim>\<open>BuildTree\<close> computes for child 0 of the unit cube is the
  unit cube itself, and the box for child 7 reaches from (0.5,0.5,0.5) to
  (1.5,1.5,1.5).
\<close>

theorem child_boxes_of_unit_cube:
  "childBoundingBox (box_center unit_box) (box_extents unit_box) 0 0 0 = unit_box \<and>
   childBoundingBox (box_center unit_box) (box_extents unit_box) 1 1 1 =
     \<lparr>min_bb = vec3 (1/2) (1/2) (1/2), max_bb = vec3 (3/2) (3/2) (3/2)\<rparr>"
  by (simp add: childBoundingBox_def box_center_def box_extents_def octant_offset_def
      vadd_def vsub_def vhalf_def unit_box_def)

section \<open>Inputs outside the preconditions\<close>

lemma BuildTree_negative:
  "nodes s \<noteq> [] \<Longrightarrow> maxDepth < depth \<Longrightarrow> BuildTree fuel maxDepth 0 depth b s = None"
proof (induction fuel arbitrary: depth b s)
  case 0
  show ?case by simp
next
  case (Suc fuel)
  have range: "in_range (nodes s) 0" using Suc.prems(1) by (simp add: in_range_def)
  from Suc.prems(2) have ne: "depth \<noteq> maxDepth" by simp
  show ?case
    unfolding BuildTree_first_child [OF range ne]
    by (subst Suc.IH) (use Suc.prems in simp_all)
qed

lemma Octree_ctor_negative:
  "vertices \<noteq> [] \<Longrightarrow> maxDepth < 0 \<Longrightarrow> Octree_ctor fuel vertices maxDepth = None"
  by (cases vertices) (simp_all add: Octree_ctor_def BuildTree_negative)

text \<open>
  Claim C4 says that an empty point set, a negative \<open>maxDepth\<close> and a number of
  planes other than six are detected at the start of the operation and reported
  as an \<open>InvalidInput\<close> failure. With one plane, \<^verbatim>\<open>FrustumCull\<close> returns a visible
  set.
\<close>

theorem cull_accepts_any_plane_count:
  "length [vec4 1 0 0 0] \<noteq> 6 \<and>
   FrustumCull 1 [vec4 1 0 0 0] unit_index = Some (Inr (unit_index\<lparr>visibleNodes := [0]\<rparr>))"
  using FrustumCull_single [of unit_index unit_box "[]" 0 0 "[vec4 1 0 0 0]"]
  by (simp add: unit_index_def unit_box_def plane_test_def)

text \<open>
  Claim C4 as amended: no precondition is checked. The constructor reads
  \<^verbatim>\<open>vertices[0]\<close> of an empty vector, which is undefined behaviour; with a negative
  \<open>maxDepth\<close> it never reaches \<^verbatim>\<open>depth == maxDepth\<close> and does not return; and
  \<^verbatim>\<open>FrustumCull\<close> on an index that the constructor returned runs the test for
  whatever planes it is given and returns the visible set.
\<close>

theorem no_precondition_is_checked:
  "Octree_ctor fuel [] maxDepth = Some (Inl OutOfBounds) \<and>
   (vs \<noteq> [] \<and> d < 0 \<longrightarrow> Octree_ctor fuel vs d = None) \<and>
   (Octree_ctor k vertices m = Some (Inr s) \<longrightarrow>
      FrustumCull (Suc j) planes s =
        Some (Inr (s\<lparr>visibleNodes :=
          (if IntersectsFrustum (boundingBox (nodes s ! 0)) planes then [0] else [])\<rparr>)))"
proof (intro conjI impI)
  show "Octree_ctor fuel [] maxDepth = Some (Inl OutOfBounds)"
    by (simp add: Octree_ctor_def)
next
  assume "vs \<noteq> [] \<and> d < 0"
  then show "Octree_ctor fuel vs d = None" by (simp add: Octree_ctor_negative)
next
  assume "Octree_ctor k vertices m = Some (Inr s)"
  from Octree_ctor_returns [OF this]
  have s: "nodes s = [OctreeNode (sceneBoundingBox (hd vertices) vertices) [] [] 0]" by simp
  from FrustumCull_single [OF s, of j planes] s
  show "FrustumCull (Suc j) planes s =
        Some (Inr (s\<lparr>visibleNodes :=
          (if IntersectsFrustum (boundingBox (nodes s ! 0)) planes then [0] else [])\<rparr>))"
    by simp
qed

theorem no_precondition_is_checked_witness:
  "Octree_ctor 1 [] 0 = Some (Inl OutOfBounds) \<and>
   unit_cube \<noteq> [] \<and> (-1::int) < 0 \<and> Octree_ctor 1 unit_cube (-1) = None \<and>
   Octree_ctor 1 unit_cube 0 = Some (Inr unit_index) \<and>
   FrustumCull 1 [vec4 1 0 0 0] unit_index = Some (Inr (unit_index\<lparr>visibleNodes := [0]\<rparr>))"
proof -
  have ne: "unit_cube \<noteq> [] \<and> (-1::int) < 0" by (simp add: unit_cube_def)
  have vis: "IntersectsFrustum (boundingBox (nodes unit_index ! 0)) [vec4 1 0 0 0]"
    by (simp add: unit_index_def unit_box_def plane_test_def)
  from no_precondition_is_checked [of 1 0 unit_cube "-1" 1 unit_cube 0 unit_index 0
      "[vec4 1 0 0 0]"] ne Octree_ctor_unit_cube vis
  show ?thesis by simp
qed

end
